theory Spec2Isabelle
  imports Main "HOL-Library.Sublist"
begin

section \<open>Strings of the converter\<close>

text \<open>
  The converter (\<^verbatim>\<open>convert.py\<close>) works on Python \<^verbatim>\<open>str\<close> values. They are modelled as
  \<^typ>\<open>string\<close>; one \<^typ>\<open>char\<close> stands for one code point below 256. The character
  classes below are the ones Python uses on that range: \<^verbatim>\<open>str.strip\<close>, \<^verbatim>\<open>str.split\<close>,
  \<^verbatim>\<open>str.isspace\<close> and the regular-expression class \<^verbatim>\<open>\s\<close> all use the same whitespace
  test, and \<^verbatim>\<open>\w\<close> (which decides \<^verbatim>\<open>\b\<close>) is "alphanumeric or underscore".
\<close>

definition is_space :: "char \<Rightarrow> bool" where
  "is_space c = ((of_char c :: nat) \<in> set [9, 10, 11, 12, 13, 28, 29, 30, 31, 32, 133, 160])"

definition is_word_char :: "char \<Rightarrow> bool" where
  "is_word_char c =
     (let n = (of_char c :: nat) in
        (48 \<le> n \<and> n \<le> 57) \<or> (65 \<le> n \<and> n \<le> 90) \<or> n = 95 \<or> (97 \<le> n \<and> n \<le> 122)
        \<or> n \<in> set [170, 178, 179, 181, 185, 186, 188, 189, 190]
        \<or> (192 \<le> n \<and> n \<le> 214) \<or> (216 \<le> n \<and> n \<le> 246) \<or> (248 \<le> n \<and> n \<le> 255))"

text \<open>\<^verbatim>\<open>s.strip()\<close>: whitespace removed at both ends.\<close>

definition lstrip :: "string \<Rightarrow> string" where
  "lstrip s = dropWhile is_space s"

definition rstrip :: "string \<Rightarrow> string" where
  "rstrip s = rev (dropWhile is_space (rev s))"

definition strip :: "string \<Rightarrow> string" where
  "strip s = rstrip (lstrip s)"

text \<open>\<^verbatim>\<open>s.isspace()\<close>: at least one character, and all of them whitespace.\<close>

definition isspace :: "string \<Rightarrow> bool" where
  "isspace s = (s \<noteq> [] \<and> list_all is_space s)"

text \<open>
  \<^verbatim>\<open>s.split()\<close>: the maximal runs of non-whitespace characters, in order. The first
  argument is the word being read.
\<close>

fun split_from :: "string \<Rightarrow> string \<Rightarrow> string list" where
  "split_from w [] = (if w = [] then [] else [w])"
| "split_from w (c # cs) =
     (if is_space c then (if w = [] then split_from [] cs else w # split_from [] cs)
      else split_from (w @ [c]) cs)"

definition split :: "string \<Rightarrow> string list" where
  "split s = split_from [] s"

text \<open>\<^verbatim>\<open>' '.join(ws)\<close>.\<close>

fun join_space :: "string list \<Rightarrow> string" where
  "join_space [] = []"
| "join_space [w] = w"
| "join_space (w # ws) = w @ CHR '' '' # join_space ws"

text \<open>\<^verbatim>\<open>s.endswith(p)\<close>.\<close>

definition endswith :: "string \<Rightarrow> string \<Rightarrow> bool" where
  "endswith s p = suffix p s"

text \<open>
  \<^verbatim>\<open>s.upper()\<close> on the letters a to z; the other characters are left as they are (the
  model of \<^verbatim>\<open>upper\<close> is for ASCII text).
\<close>

definition upper_char :: "char \<Rightarrow> char" where
  "upper_char c =
     (let n = (of_char c :: nat) in if 97 \<le> n \<and> n \<le> 122 then char_of (n - 32) else c)"

definition upper :: "string \<Rightarrow> string" where
  "upper s = map upper_char s"

section \<open>TextProcessor\<close>

text \<open>
  The ten tokens of the pattern \<^verbatim>\<open>(I|II|III|IV|V|VI|VII|VIII|IX|X)\<close>, in the order of
  the alternation.
\<close>

definition roman_tokens :: "string list" where
  "roman_tokens = [''I'', ''II'', ''III'', ''IV'', ''V'', ''VI'', ''VII'', ''VIII'', ''IX'', ''X'']"

text \<open>
  Python's \<^verbatim>\<open>$\<close> (without MULTILINE) holds at the end of the string and just before a
  newline that is the last character.
\<close>

definition at_dollar :: "string \<Rightarrow> bool" where
  "at_dollar rest = (rest = [] \<or> rest = [CHR 0x0A])"

text \<open>
  \<^verbatim>\<open>is_roman_numeral\<close>: \<^verbatim>\<open>re.match(r'^(I|II|III|IV|V|VI|VII|VIII|IX|X)$', text.strip())\<close>.
  The match succeeds when some alternative is a prefix of the stripped text and \<^verbatim>\<open>$\<close>
  holds right after it.
\<close>

definition is_roman_numeral :: "string \<Rightarrow> bool" where
  "is_roman_numeral text =
     (let s = strip text in
        list_ex (\<lambda>t. prefix t s \<and> at_dollar (drop (length t) s)) roman_tokens)"

text \<open>\<^verbatim>\<open>normalize_text\<close>: \<^verbatim>\<open>re.sub(r'\s+', ' ', text).strip()\<close>.\<close>

function collapse_ws :: "string \<Rightarrow> string" where
  "collapse_ws [] = []"
| "collapse_ws (c # cs) =
     (if is_space c then CHR '' '' # collapse_ws (dropWhile is_space cs)
      else c # collapse_ws cs)"
  by pat_completeness auto
termination
  by (relation "measure length") (auto simp: le_imp_less_Suc length_dropWhile_le)

definition normalize_text :: "string \<Rightarrow> string" where
  "normalize_text text = strip (collapse_ws text)"

text \<open>
  \<^verbatim>\<open>clean_first_word\<close>: \<^verbatim>\<open>re.sub(r'[,:]+$', '', word).strip()\<close>. The pattern matches the
  run of commas and colons that ends the word, or that stands just before a final
  newline.
\<close>

definition is_label_punct :: "char \<Rightarrow> bool" where
  "is_label_punct c = (c = CHR '','' \<or> c = CHR '':'')"

definition strip_label_punct :: "string \<Rightarrow> string" where
  "strip_label_punct word =
     (case rev word of
        [] \<Rightarrow> []
      | c # r \<Rightarrow>
          if c = CHR 0x0A then rev (c # dropWhile is_label_punct r)
          else rev (dropWhile is_label_punct (c # r)))"

definition clean_first_word :: "string \<Rightarrow> string" where
  "clean_first_word word = strip (strip_label_punct word)"

section \<open>FormatProcessor\<close>

text \<open>
  A run of the paragraph (\<^verbatim>\<open>docx.text.run.Run\<close>): its text and the two style flags the
  converter reads. A flag that is unset (\<^verbatim>\<open>None\<close>) is false in \<^verbatim>\<open>get_run_formatting\<close>.
\<close>

record run =
  run_text :: string
  run_bold :: bool
  run_italic :: bool

definition get_run_formatting :: "run \<Rightarrow> string option" where
  "get_run_formatting r =
     (if run_bold r \<and> run_italic r then Some ''bold italic''
      else if run_bold r then Some ''bold''
      else if run_italic r then Some ''italic''
      else None)"

text \<open>The four local variables of the loop of \<^verbatim>\<open>process_runs\<close>.\<close>

record runs_state =
  formatted_text :: "string list"
  current_format :: "string option"
  current_text :: "string list"
  words_processed :: nat

definition initial_runs_state :: runs_state where
  "initial_runs_state =
     \<lparr>formatted_text = [], current_format = None, current_text = [], words_processed = 0\<rparr>"

text \<open>
  The text of one finished stretch: \<^verbatim>\<open>''.join(current_text)\<close>, inside a span when
  \<^verbatim>\<open>current_format\<close> is true (neither \<^verbatim>\<open>None\<close> nor empty).
\<close>

definition span_wrap :: "string option \<Rightarrow> string \<Rightarrow> string" where
  \<open>span_wrap fmt text =
     (case fmt of
        None \<Rightarrow> text
      | Some f \<Rightarrow> if f = [] then text else ''<span class="'' @ f @ ''">'' @ text @ ''</span>'')\<close>

text \<open>\<^verbatim>\<open>if current_text: ... formatted_text.append(text)\<close>, at a change of style and at the end.\<close>

definition flush :: "runs_state \<Rightarrow> string list" where
  "flush st =
     (if current_text st \<noteq> []
      then formatted_text st @ [span_wrap (current_format st) (concat (current_text st))]
      else formatted_text st)"

text \<open>Lines 74 to 86: the run's text \<open>rt\<close> (trimmed or not) joins the stretch of its style.\<close>

definition append_run :: "runs_state \<Rightarrow> string option \<Rightarrow> string \<Rightarrow> runs_state" where
  "append_run st run_format rt =
     (let st' = (if run_format \<noteq> current_format st
                 then st\<lparr>formatted_text := flush st, current_text := [],
                         current_format := run_format\<rparr>
                 else st)
      in st'\<lparr>current_text := current_text st' @ [rt]\<rparr>)"

text \<open>One iteration of \<^verbatim>\<open>for run in paragraph.runs\<close> (lines 57 to 86).\<close>

definition run_step :: "nat \<Rightarrow> runs_state \<Rightarrow> run \<Rightarrow> runs_state" where
  "run_step skip_words st r =
     (if strip (run_text r) = [] then
        (if current_text st \<noteq> [] \<and> isspace (run_text r)
         then st\<lparr>current_text := current_text st @ [run_text r]\<rparr>
         else st)
      else if words_processed st < skip_words then
        (let words = split (run_text r) in
           if length words + words_processed st \<le> skip_words
           then st\<lparr>words_processed := words_processed st + length words\<rparr>
           else append_run (st\<lparr>words_processed := skip_words\<rparr>) (get_run_formatting r)
                  (join_space (drop (skip_words - words_processed st) words)))
      else append_run st (get_run_formatting r) (run_text r))"

definition process_runs :: "run list \<Rightarrow> nat \<Rightarrow> string" where
  "process_runs runs skip_words =
     concat (flush (foldl (run_step skip_words) initial_runs_state runs))"

section \<open>DocumentProcessor\<close>

record docx_paragraph =
  para_text :: string
  para_runs :: "run list"

text \<open>
  Lines 109 to 132 of \<^verbatim>\<open>process_paragraph\<close>, for the words \<open>w0 # rest\<close> of the
  normalized text: the title, \<^verbatim>\<open>skip_words\<close> and \<^verbatim>\<open>has_punctuation\<close>.
\<close>

definition title_parts :: "string \<Rightarrow> string list \<Rightarrow> string \<times> nat \<times> string option" where
  "title_parts w0 rest =
     (let first_word = clean_first_word (upper w0) in
        case rest of
          second_word # rest2 \<Rightarrow>
            (let second_word_clean = clean_first_word second_word in
               if is_roman_numeral second_word_clean then
                 (let title = first_word @ '' '' @ second_word_clean in
                    if endswith second_word '':'' then (title, 2, Some '':'')
                    else if endswith second_word '','' then (title, 2, Some '','')
                    else (case rest2 of
                            third # _ \<Rightarrow>
                              if third = '':'' \<or> third = '','' then (title, 3, Some third)
                              else (title, 2, None)
                          | [] \<Rightarrow> (title, 2, None)))
               else (first_word, 1, None))
        | [] \<Rightarrow>
            if endswith w0 '':'' then (first_word, 1, Some '':'')
            else if endswith w0 '','' then (first_word, 1, Some '','')
            else (first_word, 1, None))"

text \<open>
  Line 135: \<^verbatim>\<open>re.sub(r'\b(I|II|III|IV|V|VI|VII|VIII|IX|X)\b[:, ]?', '', s)\<close>.
  \<open>roman_match s\<close> is the length of the match that starts at the head of \<open>s\<close>, when the
  character before \<open>s\<close> is not a word character: the first alternative that is followed
  by a word boundary, and one character of \<^verbatim>\<open>[:, ]\<close> when it comes next.
\<close>

definition at_word_end :: "string \<Rightarrow> bool" where
  "at_word_end rest = (case rest of [] \<Rightarrow> True | c # _ \<Rightarrow> \<not> is_word_char c)"

definition roman_match :: "string \<Rightarrow> nat option" where
  "roman_match s =
     (case find (\<lambda>t. prefix t s \<and> at_word_end (drop (length t) s)) roman_tokens of
        None \<Rightarrow> None
      | Some t \<Rightarrow>
          (case drop (length t) s of
             [] \<Rightarrow> Some (length t)
           | c # _ \<Rightarrow> if c \<in> set '':, '' then Some (length t + 1) else Some (length t)))"

text \<open>
  The scan of \<^verbatim>\<open>re.sub\<close>: \<open>prev_word\<close> tells whether the character before the position
  is a word character (false at the start). A match of \<open>n\<close> characters begins with the
  head \<open>c\<close>, so the scan goes on after \<open>n - 1\<close> characters of the tail.
\<close>

function strip_roman_from :: "bool \<Rightarrow> string \<Rightarrow> string" where
  "strip_roman_from prev_word [] = []"
| "strip_roman_from prev_word (c # cs) =
     (case (if prev_word then None else roman_match (c # cs)) of
        Some n \<Rightarrow> strip_roman_from (is_word_char ((c # cs) ! (n - 1))) (drop (n - 1) cs)
      | None \<Rightarrow> c # strip_roman_from (is_word_char c) cs)"
  by pat_completeness auto
termination
  by (relation "measure (\<lambda>(p, s). length s)") auto

definition strip_roman :: "string \<Rightarrow> string" where
  "strip_roman s = strip_roman_from False s"

text \<open>
  Line 136: \<^verbatim>\<open>re.sub(r'<(?!/?span)[^>]+>', '', s)\<close>. A match is a \<^verbatim>\<open><\<close> not followed by
  \<^verbatim>\<open>span\<close> or \<^verbatim>\<open>/span\<close>, then at least one character other than \<^verbatim>\<open>>\<close>, up to the
  next \<^verbatim>\<open>>\<close>.
\<close>

definition not_gt :: "char \<Rightarrow> bool" where
  "not_gt c = (c \<noteq> CHR ''>'')"

text \<open>
  \<open>stray_at cs\<close>: the pattern matches at a \<^verbatim>\<open><\<close> that is followed by \<open>cs\<close>. The match
  ends with the first \<^verbatim>\<open>>\<close> of \<open>cs\<close>.
\<close>

definition stray_at :: "string \<Rightarrow> bool" where
  "stray_at cs =
     (\<not> prefix ''span'' cs \<and> \<not> prefix ''/span'' cs
      \<and> takeWhile not_gt cs \<noteq> [] \<and> dropWhile not_gt cs \<noteq> [])"

function strip_tags :: "string \<Rightarrow> string" where
  "strip_tags [] = []"
| "strip_tags (c # cs) =
     (if c = CHR ''<'' \<and> stray_at cs then strip_tags (tl (dropWhile not_gt cs))
      else c # strip_tags cs)"
  by pat_completeness auto
termination
  by (relation "measure length")
     (auto simp: less_Suc_eq_le intro: order_trans [OF diff_le_self length_dropWhile_le])

text \<open>\<^verbatim>\<open>'<span' in s\<close>.\<close>

fun contains :: "string \<Rightarrow> string \<Rightarrow> bool" where
  "contains p [] = (p = [])"
| "contains p (c # cs) = (prefix p (c # cs) \<or> contains p cs)"

text \<open>
  Lines 140 to 143: \<^verbatim>\<open>re.sub(r'(<span[^>]*>)(.*?)(</span>)', rf'\1\2{p}\3', s, count=1)\<close>.
  \<open>find_close body\<close> is the lazy \<^verbatim>\<open>(.*?)(</span>)\<close>: the text before the first closing
  tag and the text after it, when no newline comes before that tag.
\<close>

fun find_close :: "string \<Rightarrow> (string \<times> string) option" where
  "find_close [] = None"
| "find_close (c # cs) =
     (if prefix ''</span>'' (c # cs) then Some ([], drop 7 (c # cs))
      else if c = CHR 0x0A then None
      else map_option (\<lambda>(before, after). (c # before, after)) (find_close cs))"

fun insert_punct :: "string \<Rightarrow> string \<Rightarrow> string" where
  "insert_punct p [] = []"
| "insert_punct p (c # cs) =
     (if prefix ''<span'' (c # cs) then
        (case dropWhile not_gt (drop 4 cs) of
           [] \<Rightarrow> c # insert_punct p cs
         | gt # body \<Rightarrow>
             (case find_close body of
                None \<Rightarrow> c # insert_punct p cs
              | Some (before, after) \<Rightarrow>
                  ''<span'' @ takeWhile not_gt (drop 4 cs) @ [gt] @ before @ p @ ''</span>'' @ after))
      else c # insert_punct p cs)"

text \<open>Lines 138 to 145.\<close>

definition attach_punctuation :: "string option \<Rightarrow> string \<Rightarrow> string" where
  "attach_punctuation has_punctuation s =
     (case has_punctuation of
        None \<Rightarrow> s
      | Some p \<Rightarrow>
          if p = [] then s
          else if contains ''<span'' s then insert_punct p s
          else p @ '' '' @ s)"

text \<open>
  Lines 148 and 149: \<^verbatim>\<open>re.sub(r':{2,}', ':', s)\<close> and the same for the comma: a run of two
  or more \<open>p\<close> becomes one.
\<close>

function collapse_repeated :: "char \<Rightarrow> string \<Rightarrow> string" where
  "collapse_repeated p [] = []"
| "collapse_repeated p (c # cs) =
     (if c = p \<and> prefix [p] cs then p # collapse_repeated p (dropWhile (\<lambda>x. x = p) cs)
      else c # collapse_repeated p cs)"
  by pat_completeness auto
termination
  by (relation "measure (\<lambda>(p, s). length s)") (auto simp: le_imp_less_Suc length_dropWhile_le)

text \<open>Lines 147 to 149, the last three steps of \<^verbatim>\<open>process_paragraph\<close>.\<close>

definition normalize_body :: "string \<Rightarrow> string" where
  "normalize_body s =
     collapse_repeated (CHR '','') (collapse_repeated (CHR '':'') (strip (collapse_ws s)))"

definition process_paragraph :: "docx_paragraph \<Rightarrow> string \<times> string" where
  "process_paragraph p =
     (case split (normalize_text (para_text p)) of
        [] \<Rightarrow> ([], [])
      | w0 # rest \<Rightarrow>
          (case title_parts w0 rest of
             (first_word, skip_words, has_punctuation) \<Rightarrow>
               (first_word,
                normalize_body
                  (attach_punctuation has_punctuation
                     (strip_tags (strip_roman (process_runs (para_runs p) skip_words)))))))"

section \<open>BatchConverter\<close>

text \<open>
  What the converter reads of one \<^verbatim>\<open>.docx\<close> path: its name and stem, what
  \<^verbatim>\<open>Document(doc_path)\<close> gives (the paragraphs, or the message of the exception it
  raises), and the message of the exception of \<^verbatim>\<open>wb.save(output_path)\<close>, if it raises.
\<close>

record docx_file =
  file_name :: string
  file_stem :: string
  file_document :: "string + docx_paragraph list"
  file_save_error :: "string option"

text \<open>One row of the sheet below the header: its row number and the four cells.\<close>

record sheet_row =
  row_number :: nat
  articleid :: nat
  articlecat :: string
  articletitle :: string
  articleintrotext :: string

definition headers :: "string list" where
  "headers = [''articleid'', ''articlecat'', ''articletitle'', ''articleintrotext'']"

text \<open>The variables \<^verbatim>\<open>row\<close> and \<^verbatim>\<open>article_id\<close> and the rows written so far.\<close>

record sheet_state =
  next_row :: nat
  article_id :: nat
  sheet_rows :: "sheet_row list"

definition initial_sheet_state :: sheet_state where
  "initial_sheet_state = \<lparr>next_row = 2, article_id = 1, sheet_rows = []\<rparr>"

text \<open>One iteration of \<^verbatim>\<open>for para in doc.paragraphs\<close> (lines 187 to 202).\<close>

definition paragraph_step :: "string \<Rightarrow> sheet_state \<Rightarrow> docx_paragraph \<Rightarrow> sheet_state" where
  "paragraph_step article_cat st para =
     (if normalize_text (para_text para) \<noteq> [] then
        (case process_paragraph para of
           (title, content) \<Rightarrow>
             if title \<noteq> [] then
               st\<lparr>sheet_rows := sheet_rows st @
                      [\<lparr>row_number = next_row st, articleid = article_id st,
                        articlecat = article_cat, articletitle = title,
                        articleintrotext = ''<p>'' @ content @ ''</p>''\<rparr>],
                  article_id := article_id st + 1,
                  next_row := next_row st + 1\<rparr>
             else st)
      else st)"

text \<open>
  \<^verbatim>\<open>convert_single_file\<close>: the rows of the saved workbook, or the message of the
  exception that the function logs and raises again. The column widths are left out.
\<close>

definition convert_single_file :: "docx_file \<Rightarrow> string + sheet_row list" where
  "convert_single_file f =
     (case file_document f of
        Inl e \<Rightarrow> Inl e
      | Inr paragraphs \<Rightarrow>
          (let st = foldl (paragraph_step (upper (file_stem f))) initial_sheet_state paragraphs
           in case file_save_error f of
                Some e \<Rightarrow> Inl e
              | None \<Rightarrow> Inr (sheet_rows st)))"

text \<open>The lines of the log, by what they report.\<close>

datatype log_event =
    Files_found nat
  | No_files_found
  | Conversion_started string
  | Conversion_done string nat
  | Conversion_error string string
  | File_failed string string
  | All_files_done
  | Batch_error string

text \<open>The workbooks saved under \<^verbatim>\<open>output\<close> and the log.\<close>

record batch_state =
  saved :: "(string \<times> sheet_row list) list"
  logged :: "log_event list"

text \<open>
  One iteration of \<^verbatim>\<open>for doc_path in word_files\<close> (lines 236 to 241): an exception of
  \<^verbatim>\<open>convert_single_file\<close> is caught, logged, and the loop goes on.
\<close>

definition file_step :: "batch_state \<Rightarrow> docx_file \<Rightarrow> batch_state" where
  "file_step bs f =
     (case convert_single_file f of
        Inr rs \<Rightarrow>
          bs\<lparr>saved := saved bs @ [(file_stem f @ ''.xlsx'', rs)],
             logged := logged bs @
               [Conversion_started (file_name f), Conversion_done (file_name f) (length rs)]\<rparr>
      | Inl e \<Rightarrow>
          bs\<lparr>logged := logged bs @
               [Conversion_started (file_name f), Conversion_error (file_name f) e,
                File_failed (file_name f) e]\<rparr>)"

text \<open>
  \<^verbatim>\<open>process_all_files\<close>. \<open>setup_error\<close> is the message of the exception of
  \<^verbatim>\<open>setup_directories\<close> or \<^verbatim>\<open>get_word_files\<close>, if one is raised: it is logged and
  raised again (\<open>Inl\<close>).
\<close>

definition process_all_files :: "string option \<Rightarrow> docx_file list \<Rightarrow> string + batch_state" where
  "process_all_files setup_error word_files =
     (case setup_error of
        Some e \<Rightarrow> Inl e
      | None \<Rightarrow>
          if word_files = [] then Inr \<lparr>saved = [], logged = [No_files_found]\<rparr>
          else
            (let bs = foldl file_step
                        \<lparr>saved = [], logged = [Files_found (length word_files)]\<rparr> word_files
             in Inr (bs\<lparr>logged := logged bs @ [All_files_done]\<rparr>)))"

section \<open>Notions used in the statements\<close>



text \<open>No position of the text is a match of the pattern of line 136.\<close>

fun no_stray :: "string \<Rightarrow> bool" where
  "no_stray [] = True"
| "no_stray (c # cs) = (\<not> (c = CHR ''<'' \<and> stray_at cs) \<and> no_stray cs)"

text \<open>Every \<^verbatim>\<open><\<close> of the text begins \<^verbatim>\<open><span\<close> or \<^verbatim>\<open></span\<close>.\<close>

fun only_span_tags :: "string \<Rightarrow> bool" where
  "only_span_tags [] = True"
| "only_span_tags (c # cs) =
     ((c \<noteq> CHR ''<'' \<or> prefix ''span'' cs \<or> prefix ''/span'' cs) \<and> only_span_tags cs)"

text \<open>The paragraphs for which \<^verbatim>\<open>convert_single_file\<close> writes a row.\<close>

definition emits :: "docx_paragraph \<Rightarrow> bool" where
  "emits p = (normalize_text (para_text p) \<noteq> [] \<and> fst (process_paragraph p) \<noteq> [])"

text \<open>
  What holds of the variables of the loop of \<^verbatim>\<open>convert_single_file\<close> after the
  paragraphs \<open>ps\<close>.
\<close>

definition sheet_inv :: "string \<Rightarrow> docx_paragraph list \<Rightarrow> sheet_state \<Rightarrow> bool" where
  "sheet_inv cat ps st =
     (article_id st = Suc (length (sheet_rows st))
      \<and> next_row st = Suc (article_id st)
      \<and> map articleid (sheet_rows st) = [1..<article_id st]
      \<and> map row_number (sheet_rows st) = [2..<next_row st]
      \<and> length (sheet_rows st) = length (filter emits ps)
      \<and> (\<forall>r\<in>set (sheet_rows st). articletitle r \<noteq> [] \<and> articlecat r = cat))"

text \<open>
  A text in which every whitespace character is a space, no two of them are adjacent,
  and neither the first nor the last character is whitespace.
\<close>

definition ws_normal :: "string \<Rightarrow> bool" where
  "ws_normal s =
     ((\<forall>c\<in>set s. is_space c \<longrightarrow> c = CHR '' '')
      \<and> successively (\<lambda>a b. \<not> (is_space a \<and> is_space b)) s
      \<and> (s = [] \<or> (\<not> is_space (hd s) \<and> \<not> is_space (last s))))"


section \<open>Whitespace at the ends of a stripped text\<close>

lemma is_space_newline: "is_space (CHR 0x0A)"
  by (simp add: is_space_def)

lemma rstrip_last: "rstrip s \<noteq> [] \<Longrightarrow> \<not> is_space (last (rstrip s))"
  unfolding rstrip_def using hd_dropWhile [of is_space "rev s"]
  by (simp add: last_rev)

lemma strip_last: "strip s \<noteq> [] \<Longrightarrow> \<not> is_space (last (strip s))"
  unfolding strip_def by (rule rstrip_last)

lemma strip_no_final_newline: "strip s \<noteq> t @ [CHR 0x0A]"
  using strip_last [of s] is_space_newline by (cases "strip s = []") auto

lemma dollar_after_strip:
  "(prefix t (strip s) \<and> at_dollar (drop (length t) (strip s))) = (strip s = t)"
proof
  assume h: "prefix t (strip s) \<and> at_dollar (drop (length t) (strip s))"
  then obtain r where r: "strip s = t @ r" by (auto simp: prefix_def)
  with h have "r = [] \<or> r = [CHR 0x0A]" by (simp add: at_dollar_def)
  with r strip_no_final_newline [of s t] show "strip s = t" by auto
next
  assume "strip s = t"
  then show "prefix t (strip s) \<and> at_dollar (drop (length t) (strip s))"
    by (simp add: at_dollar_def)
qed

section \<open>C5: the Roman numerals that are recognised\<close>

text \<open>
  C5, as the code has it: \<^verbatim>\<open>is_roman_numeral\<close> strips its argument first, so it returns
  true exactly when the argument without the whitespace at its two ends is one of the
  ten tokens I to X. Lower case, XI, IIII and the empty string are refused, but a token
  with whitespace around it is accepted.
\<close>

theorem is_roman_numeral_iff_stripped_token:
  "is_roman_numeral text =
     (strip text \<in> {''I'', ''II'', ''III'', ''IV'', ''V'', ''VI'', ''VII'', ''VIII'', ''IX'', ''X''})"
  unfolding is_roman_numeral_def Let_def roman_tokens_def list_ex_iff dollar_after_strip
  by auto

text \<open>
  C5 as stated fails: the text made of a space and IV is not one of the ten tokens, and
  \<^verbatim>\<open>is_roman_numeral\<close> returns true on it.
\<close>

theorem is_roman_numeral_accepts_padded_token:
  "is_roman_numeral '' IV'' \<and>
   '' IV'' \<notin> {''I'', ''II'', ''III'', ''IV'', ''V'', ''VI'', ''VII'', ''VIII'', ''IX'', ''X''}"
  by code_simp

section \<open>The loop of \<^verbatim>\<open>process_runs\<close>\<close>

lemma strip_Nil_iff: "(strip s = []) = (\<forall>c\<in>set s. is_space c)"
proof
  assume "strip s = []"
  then have "\<forall>c\<in>set (dropWhile is_space s). is_space c"
    by (simp add: strip_def rstrip_def lstrip_def dropWhile_eq_Nil_conv)
  then have "dropWhile is_space s = []"
    using hd_dropWhile [of is_space s] hd_in_set [of "dropWhile is_space s"] by blast
  then show "\<forall>c\<in>set s. is_space c" by (simp add: dropWhile_eq_Nil_conv)
next
  assume "\<forall>c\<in>set s. is_space c"
  then show "strip s = []"
    by (auto simp: strip_def rstrip_def lstrip_def dest: set_dropWhileD)
qed




lemma isspace_strip: "isspace s \<Longrightarrow> strip s = []"
  by (simp add: isspace_def strip_Nil_iff list_all_iff)

lemma run_step_empty: "run_text e = [] \<Longrightarrow> run_step k st e = st"
  by (simp add: run_step_def strip_Nil_iff isspace_def)

lemma run_step_space:
  "isspace (run_text w) \<Longrightarrow>
   run_step k st w =
     (if current_text st \<noteq> [] then st\<lparr>current_text := current_text st @ [run_text w]\<rparr> else st)"
  by (simp add: run_step_def isspace_strip)

lemma run_step_kept:
  "strip (run_text a) \<noteq> [] \<Longrightarrow> skip_words \<le> words_processed st \<Longrightarrow>
   run_step skip_words st a = append_run st (get_run_formatting a) (run_text a)"
  by (simp add: run_step_def)

lemma process_runs_drop_empty:
  "run_text e = [] \<Longrightarrow> process_runs (xs @ e # ys) k = process_runs (xs @ ys) k"
  by (simp add: process_runs_def run_step_empty)

lemma foldl_leading_space:
  "current_text st = [] \<Longrightarrow> list_all (\<lambda>r. isspace (run_text r)) ws \<Longrightarrow>
   foldl (run_step k) st ws = st"
  by (induction ws) (auto simp: run_step_space)

lemma initial_current_text: "current_text initial_runs_state = []"
  by (simp add: initial_runs_state_def)

lemma process_runs_leading_space:
  "list_all (\<lambda>r. isspace (run_text r)) ws \<Longrightarrow> process_runs (ws @ ys) k = process_runs ys k"
  by (simp add: process_runs_def foldl_leading_space initial_current_text)

lemma first_kept:
  "strip (run_text a) \<noteq> [] \<Longrightarrow>
   run_step 0 initial_runs_state a =
     \<lparr>formatted_text = [], current_format = get_run_formatting a,
      current_text = [run_text a], words_processed = 0\<rparr>"
  by (simp add: run_step_kept append_run_def initial_runs_state_def flush_def)

lemma process_runs_pair:
  assumes "strip (run_text a) \<noteq> []" and "strip (run_text b) \<noteq> []"
    and "get_run_formatting a = get_run_formatting b"
  shows "process_runs [a, b] 0 = span_wrap (get_run_formatting a) (run_text a @ run_text b)"
proof -
  let ?s1 = "\<lparr>formatted_text = [], current_format = get_run_formatting a,
       current_text = [run_text a], words_processed = 0\<rparr>"
  have s1: "run_step 0 initial_runs_state a = ?s1"
    using assms(1) by (rule first_kept)
  have s2: "run_step 0 ?s1 b = ?s1\<lparr>current_text := [run_text a, run_text b]\<rparr>"
    using assms(2,3) by (simp add: run_step_kept append_run_def)
  show ?thesis by (simp add: process_runs_def s1 s2 flush_def)
qed

lemma process_runs_then_space:
  assumes "strip (run_text a) \<noteq> []" and "isspace (run_text w)"
  shows "process_runs [a, w] 0 = span_wrap (get_run_formatting a) (run_text a @ run_text w)"
proof -
  let ?s1 = "\<lparr>formatted_text = [], current_format = get_run_formatting a,
       current_text = [run_text a], words_processed = 0\<rparr>"
  have s1: "run_step 0 initial_runs_state a = ?s1"
    using assms(1) by (rule first_kept)
  have s2: "run_step 0 ?s1 w = ?s1\<lparr>current_text := [run_text a, run_text w]\<rparr>"
    using assms(2) by (simp add: run_step_space)
  show ?thesis by (simp add: process_runs_def s1 s2 flush_def)
qed



section \<open>C1 and C2: two paragraphs\<close>

text \<open>
  C1, as the code has it. For the runs "Section II: " (no style), "Hello " (bold) and
  "world" (no style) and the text "Section II: Hello world", the words are Section, II:,
  Hello, world; the title is SECTION II, two words are skipped and the punctuation is the
  colon. \<^verbatim>\<open>process_paragraph\<close> returns the title and a body in which the colon stands
  before the closing tag of the first span (lines 139 to 143).
\<close>

theorem section_paragraph_result:
  \<open>split (normalize_text ''Section II: Hello world'') = [''Section'', ''II:'', ''Hello'', ''world'']
   \<and> title_parts ''Section'' [''II:'', ''Hello'', ''world''] = (''SECTION II'', 2, Some '':'')
   \<and> process_paragraph
       \<lparr>para_text = ''Section II: Hello world'',
        para_runs = [\<lparr>run_text = ''Section II: '', run_bold = False, run_italic = False\<rparr>,
                     \<lparr>run_text = ''Hello '', run_bold = True, run_italic = False\<rparr>,
                     \<lparr>run_text = ''world'', run_bold = False, run_italic = False\<rparr>]\<rparr>
     = (''SECTION II'', ''<span class="bold">Hello :</span>world'')\<close>
  by code_simp

text \<open>
  C1 as stated fails: the body that \<^verbatim>\<open>process_paragraph\<close> returns for this paragraph is
  not the span around "Hello " followed by "world"; the colon is in it.
\<close>

theorem section_paragraph_body_has_colon:
  \<open>snd (process_paragraph
       \<lparr>para_text = ''Section II: Hello world'',
        para_runs = [\<lparr>run_text = ''Section II: '', run_bold = False, run_italic = False\<rparr>,
                     \<lparr>run_text = ''Hello '', run_bold = True, run_italic = False\<rparr>,
                     \<lparr>run_text = ''world'', run_bold = False, run_italic = False\<rparr>]\<rparr>)
     \<noteq> ''<span class="bold">Hello </span>world''\<close>
  by code_simp

text \<open>
  C2, as the code has it. For the single run "Overview, this is the body" without style,
  the second word is not a Roman numeral, so no punctuation is looked for (the test of
  the first word's ending is the \<^verbatim>\<open>else\<close> of \<^verbatim>\<open>len(words) > 1\<close>): the title is
  OVERVIEW, one word is skipped, \<^verbatim>\<open>has_punctuation\<close> stays \<^verbatim>\<open>None\<close> and the body is
  "this is the body".
\<close>

theorem overview_paragraph_result:
  \<open>split (normalize_text ''Overview, this is the body'')
     = [''Overview,'', ''this'', ''is'', ''the'', ''body'']
   \<and> title_parts ''Overview,'' [''this'', ''is'', ''the'', ''body''] = (''OVERVIEW'', 1, None)
   \<and> process_paragraph
       \<lparr>para_text = ''Overview, this is the body'',
        para_runs = [\<lparr>run_text = ''Overview, this is the body'', run_bold = False,
                      run_italic = False\<rparr>]\<rparr>
     = (''OVERVIEW'', ''this is the body'')\<close>
  by code_simp

text \<open>
  C2 as stated fails: for this paragraph the punctuation found is not the comma, and the
  body is not ", this is the body".
\<close>

theorem overview_paragraph_has_no_comma:
  \<open>snd (snd (title_parts ''Overview,'' [''this'', ''is'', ''the'', ''body''])) \<noteq> Some '',''
   \<and> snd (process_paragraph
       \<lparr>para_text = ''Overview, this is the body'',
        para_runs = [\<lparr>run_text = ''Overview, this is the body'', run_bold = False,
                      run_italic = False\<rparr>]\<rparr>)
     \<noteq> '', this is the body''\<close>
  by code_simp

section \<open>C4: the word skip across runs\<close>



section \<open>C10: empty runs and whitespace runs\<close>

text \<open>
  C10. A run \<open>e\<close> with empty text leaves the state of the loop as it is, so it can be
  removed from the paragraph without changing the result, and two runs \<open>a\<close> and \<open>b\<close> of
  the same style around it give one span. A run \<open>w\<close> of whitespace only is appended to
  \<^verbatim>\<open>current_text\<close> when that list is not empty, whatever the style of \<open>w\<close>, and is
  dropped otherwise: after a kept run \<open>a\<close> it is rendered inside the span of \<open>a\<close>, and
  whitespace runs \<open>ws\<close> at the start of the paragraph are dropped.
\<close>

theorem blank_runs_never_break_a_span:
  assumes "run_text e = []" and "isspace (run_text w)"
    and "strip (run_text a) \<noteq> []" and "strip (run_text b) \<noteq> []"
    and "get_run_formatting a = get_run_formatting b"
    and "list_all (\<lambda>r. isspace (run_text r)) ws"
  shows "run_step k st e = st
     \<and> process_runs (xs @ e # ys) k = process_runs (xs @ ys) k
     \<and> process_runs [a, e, b] 0 = span_wrap (get_run_formatting a) (run_text a @ run_text b)
     \<and> run_step k st w =
         (if current_text st \<noteq> [] then st\<lparr>current_text := current_text st @ [run_text w]\<rparr>
          else st)
     \<and> process_runs [a, w] 0 = span_wrap (get_run_formatting a) (run_text a @ run_text w)
     \<and> process_runs (ws @ ys) k = process_runs ys k"
proof -
  have "process_runs ([a] @ e # [b]) 0 = process_runs ([a] @ [b]) 0"
    using assms(1) by (rule process_runs_drop_empty)
  then have 1: "process_runs [a, e, b] 0 =
      span_wrap (get_run_formatting a) (run_text a @ run_text b)"
    using assms(3,4,5) by (simp add: process_runs_pair)
  show ?thesis
    using assms 1
    by (simp add: run_step_empty run_step_space process_runs_drop_empty
        process_runs_leading_space process_runs_then_space)
qed

text \<open>
  C10 at the bold runs "Hello" and "World", an empty italic run and an italic run of
  two spaces.
\<close>

theorem blank_runs_never_break_a_span_witness:
  \<open>run_text \<lparr>run_text = [], run_bold = False, run_italic = True\<rparr> = []
   \<and> isspace (run_text \<lparr>run_text = ''  '', run_bold = False, run_italic = True\<rparr>)
   \<and> process_runs
       [\<lparr>run_text = ''Hello'', run_bold = True, run_italic = False\<rparr>,
        \<lparr>run_text = [], run_bold = False, run_italic = True\<rparr>,
        \<lparr>run_text = ''World'', run_bold = True, run_italic = False\<rparr>] 0
     = ''<span class="bold">HelloWorld</span>''
   \<and> process_runs
       [\<lparr>run_text = ''Hello'', run_bold = True, run_italic = False\<rparr>,
        \<lparr>run_text = ''  '', run_bold = False, run_italic = True\<rparr>] 0
     = ''<span class="bold">Hello  </span>''
   \<and> process_runs
       ([\<lparr>run_text = ''  '', run_bold = False, run_italic = True\<rparr>]
        @ [\<lparr>run_text = ''World'', run_bold = True, run_italic = False\<rparr>]) 0
     = process_runs [\<lparr>run_text = ''World'', run_bold = True, run_italic = False\<rparr>] 0\<close>
proof -
  let ?e = "\<lparr>run_text = [], run_bold = False, run_italic = True\<rparr>"
  let ?w = "\<lparr>run_text = ''  '', run_bold = False, run_italic = True\<rparr>"
  let ?a = "\<lparr>run_text = ''Hello'', run_bold = True, run_italic = False\<rparr>"
  let ?b = "\<lparr>run_text = ''World'', run_bold = True, run_italic = False\<rparr>"
  have h1: "run_text ?e = []" by simp
  have h2: "isspace (run_text ?w)" by code_simp
  have h3: "strip (run_text ?a) \<noteq> []" by code_simp
  have h4: "strip (run_text ?b) \<noteq> []" by code_simp
  have h5: "get_run_formatting ?a = get_run_formatting ?b" by code_simp
  have h6: "list_all (\<lambda>r. isspace (run_text r)) [?w]" using h2 by simp
  have e1: \<open>span_wrap (get_run_formatting ?a) (run_text ?a @ run_text ?b)
      = ''<span class="bold">HelloWorld</span>''\<close> by code_simp
  have e2: \<open>span_wrap (get_run_formatting ?a) (run_text ?a @ run_text ?w)
      = ''<span class="bold">Hello  </span>''\<close> by code_simp
  note t = blank_runs_never_break_a_span [OF h1 h2 h3 h4 h5 h6, of 0 initial_runs_state "[]" "[?b]"]
  from t have a1: "process_runs [?a, ?e, ?b] 0 =
      span_wrap (get_run_formatting ?a) (run_text ?a @ run_text ?b)" by blast
  from t have a2: "process_runs [?a, ?w] 0 =
      span_wrap (get_run_formatting ?a) (run_text ?a @ run_text ?w)" by blast
  from t have a3: "process_runs ([?w] @ [?b]) 0 = process_runs [?b] 0" by blast
  from h1 h2 a1 [unfolded e1] a2 [unfolded e2] a3 show ?thesis by blast
qed

section \<open>The loops of the batch\<close>

lemma paragraph_step_cases:
  "paragraph_step cat st p =
     (if emits p then
        st\<lparr>sheet_rows := sheet_rows st @
               [\<lparr>row_number = next_row st, articleid = article_id st, articlecat = cat,
                 articletitle = fst (process_paragraph p),
                 articleintrotext = ''<p>'' @ snd (process_paragraph p) @ ''</p>''\<rparr>],
           article_id := article_id st + 1, next_row := next_row st + 1\<rparr>
      else st)"
  by (simp add: paragraph_step_def emits_def split: prod.splits)

lemma sheet_inv_initial: "sheet_inv cat [] initial_sheet_state"
  by (simp add: sheet_inv_def initial_sheet_state_def)

lemma sheet_inv_step:
  "sheet_inv cat ps st \<Longrightarrow> sheet_inv cat (ps @ [p]) (paragraph_step cat st p)"
  by (auto simp: sheet_inv_def paragraph_step_cases emits_def)

lemma sheet_inv_foldl:
  "sheet_inv cat ps st \<Longrightarrow> sheet_inv cat (ps @ qs) (foldl (paragraph_step cat) st qs)"
proof (induction qs arbitrary: ps st)
  case Nil
  then show ?case by simp
next
  case (Cons q qs)
  from Cons.IH [OF sheet_inv_step [OF Cons.prems, of q]] show ?case by simp
qed

lemma convert_single_file_rows:
  assumes "convert_single_file f = Inr rs"
  shows "\<exists>ps. file_document f = Inr ps \<and> sheet_inv (upper (file_stem f)) ps
           \<lparr>next_row = length rs + 2, article_id = Suc (length rs), sheet_rows = rs\<rparr>"
proof -
  from assms obtain ps where ps: "file_document f = Inr ps"
    by (cases "file_document f") (auto simp: convert_single_file_def)
  let ?st = "foldl (paragraph_step (upper (file_stem f))) initial_sheet_state ps"
  have inv: "sheet_inv (upper (file_stem f)) ps ?st"
    using sheet_inv_foldl [OF sheet_inv_initial, of "upper (file_stem f)" ps] by simp
  from assms ps have rs: "sheet_rows ?st = rs"
    by (auto simp: convert_single_file_def Let_def split: option.splits)
  from inv rs have "?st = \<lparr>next_row = length rs + 2, article_id = Suc (length rs), sheet_rows = rs\<rparr>"
    by (simp add: sheet_inv_def)
  with inv ps show ?thesis by auto
qed

lemma convert_single_file_ids:
  assumes "convert_single_file f = Inr rs"
  shows "map articleid rs = [1..<Suc (length rs)]"
    and "\<forall>r\<in>set rs. articletitle r \<noteq> []"
    and "\<And>ps. file_document f = Inr ps \<Longrightarrow> length rs = length (filter emits ps)"
  using convert_single_file_rows [OF assms] by (auto simp: sheet_inv_def)

lemma saved_foldl:
  "saved (foldl file_step bs fs) =
     saved bs @ concat (map (\<lambda>f. case convert_single_file f of
                                 Inr rs \<Rightarrow> [(file_stem f @ ''.xlsx'', rs)] | Inl e \<Rightarrow> []) fs)"
  by (induction fs arbitrary: bs) (auto simp: file_step_def split: sum.splits)

lemma logged_foldl:
  "logged (foldl file_step bs fs) =
     logged bs @ concat (map (\<lambda>f. case convert_single_file f of
         Inr rs \<Rightarrow> [Conversion_started (file_name f), Conversion_done (file_name f) (length rs)]
       | Inl e \<Rightarrow> [Conversion_started (file_name f), Conversion_error (file_name f) e,
                   File_failed (file_name f) e]) fs)"
  by (induction fs arbitrary: bs) (auto simp: file_step_def split: sum.splits)

lemma process_all_files_result:
  "\<exists>bs. process_all_files None fs = Inr bs
     \<and> saved bs = concat (map (\<lambda>f. case convert_single_file f of
                                 Inr rs \<Rightarrow> [(file_stem f @ ''.xlsx'', rs)] | Inl e \<Rightarrow> []) fs)
     \<and> (\<forall>f\<in>set fs. Conversion_started (file_name f) \<in> set (logged bs))
     \<and> (\<forall>f\<in>set fs. \<forall>e. convert_single_file f = Inl e \<longrightarrow>
           File_failed (file_name f) e \<in> set (logged bs))"
proof (cases "fs = []")
  case True
  then show ?thesis by (simp add: process_all_files_def)
next
  case False
  let ?bs0 = "\<lparr>saved = [], logged = [Files_found (length fs)]\<rparr>"
  let ?bs = "(foldl file_step ?bs0 fs)\<lparr>logged := logged (foldl file_step ?bs0 fs) @ [All_files_done]\<rparr>"
  have r: "process_all_files None fs = Inr ?bs"
    using False by (simp add: process_all_files_def Let_def)
  have s: "saved ?bs = concat (map (\<lambda>f. case convert_single_file f of
                                 Inr rs \<Rightarrow> [(file_stem f @ ''.xlsx'', rs)] | Inl e \<Rightarrow> []) fs)"
    by (simp add: saved_foldl)
  have l1: "\<forall>f\<in>set fs. Conversion_started (file_name f) \<in> set (logged ?bs)"
    by (auto simp: logged_foldl split: sum.splits)
  have l2: "\<forall>f\<in>set fs. \<forall>e. convert_single_file f = Inl e \<longrightarrow>
           File_failed (file_name f) e \<in> set (logged ?bs)"
    by (force simp: logged_foldl)
  from r s l1 l2 show ?thesis by blast
qed

section \<open>C8: the article ids of a document\<close>

text \<open>
  C8. When \<^verbatim>\<open>convert_single_file\<close> succeeds with the rows \<open>rs\<close>, their article ids are
  1, 2, ..., up to the number of rows, in this order; every row has a title that is not
  empty, and there is one row for each paragraph whose normalized text and whose title
  are not empty. The counter starts at 1 in each call: every workbook that
  \<^verbatim>\<open>process_all_files\<close> saves has the ids 1 to the number of its rows.
\<close>

theorem article_ids_count_from_one:
  "(convert_single_file f = Inr rs \<longrightarrow>
      map articleid rs = [1..<Suc (length rs)]
      \<and> (\<forall>r\<in>set rs. articletitle r \<noteq> [])
      \<and> (\<forall>ps. file_document f = Inr ps \<longrightarrow>
            length rs = length (filter (\<lambda>p. normalize_text (para_text p) \<noteq> []
                                            \<and> fst (process_paragraph p) \<noteq> []) ps)))
   \<and> (process_all_files None fs = Inr bs \<longrightarrow>
        (\<forall>(name, rows) \<in> set (saved bs). map articleid rows = [1..<Suc (length rows)]))"
proof -
  have a: "convert_single_file f = Inr rs \<longrightarrow>
      map articleid rs = [1..<Suc (length rs)]
      \<and> (\<forall>r\<in>set rs. articletitle r \<noteq> [])
      \<and> (\<forall>ps. file_document f = Inr ps \<longrightarrow>
            length rs = length (filter (\<lambda>p. normalize_text (para_text p) \<noteq> []
                                            \<and> fst (process_paragraph p) \<noteq> []) ps))"
    using convert_single_file_ids [of f rs] by (auto simp: emits_def [abs_def])
  have b: "process_all_files None fs = Inr bs \<longrightarrow>
        (\<forall>(name, rows) \<in> set (saved bs). map articleid rows = [1..<Suc (length rows)])"
  proof
    assume h: "process_all_files None fs = Inr bs"
    from process_all_files_result [of fs] h
    have "saved bs = concat (map (\<lambda>f. case convert_single_file f of
                                 Inr rs \<Rightarrow> [(file_stem f @ ''.xlsx'', rs)] | Inl e \<Rightarrow> []) fs)"
      by auto
    then show "\<forall>(name, rows) \<in> set (saved bs). map articleid rows = [1..<Suc (length rows)]"
      using convert_single_file_ids(1) by (auto split: sum.splits)
  qed
  from a b show ?thesis by blast
qed

text \<open>
  C8 at a document with three paragraphs, the second of which is blank, and at a batch
  of two files, the first of which cannot be opened.
\<close>

theorem article_ids_count_from_one_witness:
  "convert_single_file
     \<lparr>file_name = ''b.docx'', file_stem = ''b'',
      file_document = Inr
        [\<lparr>para_text = ''Intro: some text'',
          para_runs = [\<lparr>run_text = ''Intro: some text'', run_bold = False, run_italic = False\<rparr>]\<rparr>,
         \<lparr>para_text = ''   '',
          para_runs = [\<lparr>run_text = ''   '', run_bold = False, run_italic = False\<rparr>]\<rparr>,
         \<lparr>para_text = ''Part II, more'',
          para_runs = [\<lparr>run_text = ''Part II, more'', run_bold = False, run_italic = False\<rparr>]\<rparr>],
      file_save_error = None\<rparr>
     = Inr [\<lparr>row_number = 2, articleid = 1, articlecat = ''B'', articletitle = ''INTRO'',
             articleintrotext = ''<p>some text</p>''\<rparr>,
            \<lparr>row_number = 3, articleid = 2, articlecat = ''B'', articletitle = ''PART II'',
             articleintrotext = ''<p>, more</p>''\<rparr>]
   \<and> map articleid
       [\<lparr>row_number = 2, articleid = 1, articlecat = ''B'', articletitle = ''INTRO'',
             articleintrotext = ''<p>some text</p>''\<rparr>,
        \<lparr>row_number = 3, articleid = 2, articlecat = ''B'', articletitle = ''PART II'',
             articleintrotext = ''<p>, more</p>''\<rparr>] = [1..<Suc 2]
   \<and> process_all_files None
        [\<lparr>file_name = ''a.docx'', file_stem = ''a'', file_document = Inl ''broken'',
          file_save_error = None\<rparr>,
         \<lparr>file_name = ''c.docx'', file_stem = ''c'',
          file_document = Inr [\<lparr>para_text = ''Note'',
            para_runs = [\<lparr>run_text = ''Note'', run_bold = False, run_italic = False\<rparr>]\<rparr>],
          file_save_error = None\<rparr>]
     = Inr \<lparr>saved = [(''c.xlsx'', [\<lparr>row_number = 2, articleid = 1, articlecat = ''C'',
                       articletitle = ''NOTE'', articleintrotext = ''<p></p>''\<rparr>])],
            logged = [Files_found 2, Conversion_started ''a.docx'',
                      Conversion_error ''a.docx'' ''broken'', File_failed ''a.docx'' ''broken'',
                      Conversion_started ''c.docx'', Conversion_done ''c.docx'' 1,
                      All_files_done]\<rparr>
   \<and> map articleid [\<lparr>row_number = 2, articleid = 1, articlecat = ''C'',
                       articletitle = ''NOTE'', articleintrotext = ''<p></p>''\<rparr>]
     = [1..<Suc (Suc 0)]"
proof -
  let ?f = "\<lparr>file_name = ''b.docx'', file_stem = ''b'',
      file_document = Inr
        [\<lparr>para_text = ''Intro: some text'',
          para_runs = [\<lparr>run_text = ''Intro: some text'', run_bold = False, run_italic = False\<rparr>]\<rparr>,
         \<lparr>para_text = ''   '',
          para_runs = [\<lparr>run_text = ''   '', run_bold = False, run_italic = False\<rparr>]\<rparr>,
         \<lparr>para_text = ''Part II, more'',
          para_runs = [\<lparr>run_text = ''Part II, more'', run_bold = False, run_italic = False\<rparr>]\<rparr>],
      file_save_error = None\<rparr>"
  let ?rs = "[\<lparr>row_number = 2, articleid = 1, articlecat = ''B'', articletitle = ''INTRO'',
             articleintrotext = ''<p>some text</p>''\<rparr>,
            \<lparr>row_number = 3, articleid = 2, articlecat = ''B'', articletitle = ''PART II'',
             articleintrotext = ''<p>, more</p>''\<rparr>]"
  let ?fs = "[\<lparr>file_name = ''a.docx'', file_stem = ''a'', file_document = Inl ''broken'',
          file_save_error = None\<rparr>,
         \<lparr>file_name = ''c.docx'', file_stem = ''c'',
          file_document = Inr [\<lparr>para_text = ''Note'',
            para_runs = [\<lparr>run_text = ''Note'', run_bold = False, run_italic = False\<rparr>]\<rparr>],
          file_save_error = None\<rparr>]"
  let ?bs = "\<lparr>saved = [(''c.xlsx'', [\<lparr>row_number = 2, articleid = 1, articlecat = ''C'',
                       articletitle = ''NOTE'', articleintrotext = ''<p></p>''\<rparr>])],
            logged = [Files_found 2, Conversion_started ''a.docx'',
                      Conversion_error ''a.docx'' ''broken'', File_failed ''a.docx'' ''broken'',
                      Conversion_started ''c.docx'', Conversion_done ''c.docx'' 1,
                      All_files_done]\<rparr>"
  have h1: "convert_single_file ?f = Inr ?rs" by code_simp
  have h2: "process_all_files None ?fs = Inr ?bs" by code_simp
  note t = article_ids_count_from_one [of ?f ?rs ?fs ?bs]
  from t h1 have a: "map articleid ?rs = [1..<Suc (length ?rs)]" by blast
  from t h2 have b: "\<forall>(name, rows) \<in> set (saved ?bs). map articleid rows = [1..<Suc (length rows)]"
    by blast
  have len: "length ?rs = 2" by simp
  from a have a': "map articleid ?rs = [1..<Suc 2]" by (simp only: len)
  from b have b': "map articleid [\<lparr>row_number = 2, articleid = 1, articlecat = ''C'',
                       articletitle = ''NOTE'', articleintrotext = ''<p></p>''\<rparr>]
     = [1..<Suc (Suc 0)]" by simp
  from h1 a' h2 b' show ?thesis by blast
qed

section \<open>C9: a file that fails\<close>

text \<open>
  C9. When the directories are set up, \<^verbatim>\<open>process_all_files\<close> returns normally for any
  list of files: the workbooks saved are those of all the files that
  \<^verbatim>\<open>convert_single_file\<close> converts, in order, whatever failed before them; the start of
  every file is logged, and every failure is logged with its message.
\<close>

theorem failed_file_does_not_stop_the_batch:
  "\<exists>bs. process_all_files None fs = Inr bs
     \<and> saved bs = concat (map (\<lambda>f. case convert_single_file f of
                                 Inr rs \<Rightarrow> [(file_stem f @ ''.xlsx'', rs)] | Inl e \<Rightarrow> []) fs)
     \<and> (\<forall>f\<in>set fs. Conversion_started (file_name f) \<in> set (logged bs))
     \<and> (\<forall>f\<in>set fs. \<forall>e. convert_single_file f = Inl e \<longrightarrow>
           File_failed (file_name f) e \<in> set (logged bs))"
  by (rule process_all_files_result)

text \<open>
  C9 at a batch of two files: the first cannot be opened, the second is converted and
  saved.
\<close>

theorem failed_file_does_not_stop_the_batch_witness:
  "\<exists>bs. process_all_files None
          [\<lparr>file_name = ''a.docx'', file_stem = ''a'', file_document = Inl ''broken'',
            file_save_error = None\<rparr>,
           \<lparr>file_name = ''c.docx'', file_stem = ''c'',
            file_document = Inr [\<lparr>para_text = ''Note'',
              para_runs = [\<lparr>run_text = ''Note'', run_bold = False, run_italic = False\<rparr>]\<rparr>],
            file_save_error = None\<rparr>] = Inr bs
     \<and> saved bs = [(''c.xlsx'', [\<lparr>row_number = 2, articleid = 1, articlecat = ''C'',
                       articletitle = ''NOTE'', articleintrotext = ''<p></p>''\<rparr>])]
     \<and> Conversion_started ''a.docx'' \<in> set (logged bs)
     \<and> Conversion_started ''c.docx'' \<in> set (logged bs)
     \<and> File_failed ''a.docx'' ''broken'' \<in> set (logged bs)"
proof -
  let ?a = "\<lparr>file_name = ''a.docx'', file_stem = ''a'', file_document = Inl ''broken'',
            file_save_error = None\<rparr>"
  let ?c = "\<lparr>file_name = ''c.docx'', file_stem = ''c'',
            file_document = Inr [\<lparr>para_text = ''Note'',
              para_runs = [\<lparr>run_text = ''Note'', run_bold = False, run_italic = False\<rparr>]\<rparr>],
            file_save_error = None\<rparr>"
  have a: "convert_single_file ?a = Inl ''broken''"
    by (simp add: convert_single_file_def)
  have c: "convert_single_file ?c = Inr [\<lparr>row_number = 2, articleid = 1, articlecat = ''C'',
                       articletitle = ''NOTE'', articleintrotext = ''<p></p>''\<rparr>]"
    by code_simp
  from failed_file_does_not_stop_the_batch [of "[?a, ?c]"] obtain bs where
    r: "process_all_files None [?a, ?c] = Inr bs"
    and s: "saved bs = concat (map (\<lambda>f. case convert_single_file f of
                                 Inr rs \<Rightarrow> [(file_stem f @ ''.xlsx'', rs)] | Inl e \<Rightarrow> []) [?a, ?c])"
    and l1: "\<forall>f\<in>set [?a, ?c]. Conversion_started (file_name f) \<in> set (logged bs)"
    and l2: "\<forall>f\<in>set [?a, ?c]. \<forall>e. convert_single_file f = Inl e \<longrightarrow>
           File_failed (file_name f) e \<in> set (logged bs)"
    by blast
  from s have s': "saved bs = [(''c.xlsx'', [\<lparr>row_number = 2, articleid = 1, articlecat = ''C'',
                       articletitle = ''NOTE'', articleintrotext = ''<p></p>''\<rparr>])]"
    by (simp add: a c)
  from l1 have s1: "Conversion_started ''a.docx'' \<in> set (logged bs)"
    and s2: "Conversion_started ''c.docx'' \<in> set (logged bs)" by simp_all
  from l2 a have f: "File_failed ''a.docx'' ''broken'' \<in> set (logged bs)" by simp
  from r s' s1 s2 f show ?thesis by blast
qed

section \<open>C6: the tags left by the sanitization\<close>

lemma strip_tags_other: "c \<noteq> CHR ''<'' \<Longrightarrow> strip_tags (c # cs) = c # strip_tags cs"
  by simp

lemma set_tl_subset: "set (tl xs) \<subseteq> set xs"
  by (cases xs) auto

lemma set_strip_tags: "set (strip_tags s) \<subseteq> set s"
proof (induction s rule: strip_tags.induct)
  case 1
  then show ?case by simp
next
  case (2 c cs)
  show ?case
  proof (cases "c = CHR ''<'' \<and> stray_at cs")
    case True
    then have "set (strip_tags (tl (dropWhile not_gt cs))) \<subseteq> set (tl (dropWhile not_gt cs))"
      using "2.IH"(1) by simp
    also have "\<dots> \<subseteq> set (dropWhile not_gt cs)"
      by (rule set_tl_subset)
    also have "\<dots> \<subseteq> set cs"
      by (auto dest: set_dropWhileD)
    finally show ?thesis using True by auto
  next
    case False
    then have "set (strip_tags cs) \<subseteq> set cs"
      using "2.IH"(2) by auto
    with False show ?thesis by auto
  qed
qed

lemma stray_at_strip_tags: "stray_at (strip_tags cs) \<Longrightarrow> stray_at cs"
proof -
  assume h: "stray_at (strip_tags cs)"
  have 1: "\<not> prefix ''span'' cs"
  proof
    assume "prefix ''span'' cs"
    then obtain r where "cs = ''span'' @ r" by (auto simp: prefix_def)
    then have "prefix ''span'' (strip_tags cs)" by simp
    with h show False by (simp add: stray_at_def)
  qed
  have 2: "\<not> prefix ''/span'' cs"
  proof
    assume "prefix ''/span'' cs"
    then obtain r where "cs = ''/span'' @ r" by (auto simp: prefix_def)
    then have "prefix ''/span'' (strip_tags cs)" by simp
    with h show False by (simp add: stray_at_def)
  qed
  have 3: "takeWhile not_gt cs \<noteq> []"
  proof
    assume e: "takeWhile not_gt cs = []"
    have "takeWhile not_gt (strip_tags cs) = []"
    proof (cases cs)
      case Nil
      then show ?thesis by simp
    next
      case (Cons c r)
      with e have "c = CHR ''>''" by (auto simp: not_gt_def split: if_splits)
      with Cons show ?thesis by (simp add: not_gt_def)
    qed
    with h show False by (simp add: stray_at_def)
  qed
  have 4: "dropWhile not_gt cs \<noteq> []"
  proof
    assume "dropWhile not_gt cs = []"
    then have "\<forall>x\<in>set cs. not_gt x" by (simp add: dropWhile_eq_Nil_conv)
    with set_strip_tags [of cs] have "\<forall>x\<in>set (strip_tags cs). not_gt x" by blast
    then have "dropWhile not_gt (strip_tags cs) = []" by (simp add: dropWhile_eq_Nil_conv)
    with h show False by (simp add: stray_at_def)
  qed
  from 1 2 3 4 show ?thesis by (simp add: stray_at_def)
qed

lemma no_stray_strip_tags: "no_stray (strip_tags s)"
proof (induction s rule: strip_tags.induct)
  case 1
  then show ?case by simp
next
  case (2 c cs)
  show ?case
  proof (cases "c = CHR ''<'' \<and> stray_at cs")
    case True
    then show ?thesis using "2.IH"(1) by simp
  next
    case False
    then have "no_stray (strip_tags cs)" using "2.IH"(2) by auto
    with False stray_at_strip_tags [of cs] show ?thesis by auto
  qed
qed

lemma no_stray_append: "no_stray (pre @ s) \<Longrightarrow> no_stray s"
  by (induction pre) auto

lemma prefix_before_gt:
  assumes "prefix p (t @ CHR ''>'' # post)" and "CHR ''>'' \<notin> set p"
  shows "prefix p t"
proof -
  from assms(1) have "prefix p t \<or> (\<exists>us. p = t @ us \<and> prefix us (CHR ''>'' # post))"
    by (simp add: prefix_append)
  then show ?thesis
  proof
    assume "prefix p t" then show ?thesis .
  next
    assume "\<exists>us. p = t @ us \<and> prefix us (CHR ''>'' # post)"
    then obtain us where us: "p = t @ us" "prefix us (CHR ''>'' # post)" by blast
    with assms(2) have "us = []" by (cases us) auto
    with us show ?thesis by simp
  qed
qed

lemma no_stray_tag:
  assumes "no_stray (pre @ CHR ''<'' # t @ CHR ''>'' # post)" and "t \<noteq> []"
    and "CHR ''>'' \<notin> set t"
  shows "prefix ''span'' t \<or> prefix ''/span'' t"
proof -
  from assms(1) have "no_stray (CHR ''<'' # t @ CHR ''>'' # post)" by (rule no_stray_append)
  then have ns: "\<not> stray_at (t @ CHR ''>'' # post)" by simp
  have tw: "takeWhile not_gt (t @ CHR ''>'' # post) = t"
    using assms(3) by (induction t) (auto simp: not_gt_def)
  have dw: "dropWhile not_gt (t @ CHR ''>'' # post) = CHR ''>'' # post"
    using assms(3) by (induction t) (auto simp: not_gt_def)
  from ns tw dw assms(2)
  have "prefix ''span'' (t @ CHR ''>'' # post) \<or> prefix ''/span'' (t @ CHR ''>'' # post)"
    by (simp add: stray_at_def)
  then show ?thesis using prefix_before_gt [of _ t post] by auto
qed

lemma only_span_tags_unchanged: "only_span_tags s \<Longrightarrow> strip_tags s = s"
  by (induction s) (auto simp: stray_at_def)

lemma strip_tags_removes:
  assumes "CHR ''<'' \<notin> set pre" and "t \<noteq> []" and "CHR ''>'' \<notin> set t"
    and "\<not> prefix ''span'' t" and "\<not> prefix ''/span'' t"
  shows "strip_tags (pre @ CHR ''<'' # t @ CHR ''>'' # post) = pre @ strip_tags post"
proof -
  have tw: "takeWhile not_gt (t @ CHR ''>'' # post) = t"
    using assms(3) by (induction t) (auto simp: not_gt_def)
  have dw: "dropWhile not_gt (t @ CHR ''>'' # post) = CHR ''>'' # post"
    using assms(3) by (induction t) (auto simp: not_gt_def)
  have "stray_at (t @ CHR ''>'' # post)"
    unfolding stray_at_def tw dw
    using assms(2,4,5) prefix_before_gt [of _ t post] by auto
  then have "strip_tags (CHR ''<'' # t @ CHR ''>'' # post) = strip_tags post"
    by (simp add: dw)
  then show ?thesis using assms(1) by (induction pre) auto
qed

text \<open>
  C6, as the code has it. The pattern of line 136 tests only how the text after
  \<^verbatim>\<open><\<close> begins. After the step, no \<^verbatim>\<open><\<close>, then one or more characters other than
  \<^verbatim>\<open>>\<close>, then \<^verbatim>\<open>>\<close> is left in the body unless the text \<open>t\<close> between them begins with
  \<^verbatim>\<open>span\<close> or \<^verbatim>\<open>/span\<close>; such a tag that is not inside an earlier \<^verbatim>\<open><\<close> is removed;
  and a body in which every \<^verbatim>\<open><\<close> begins \<^verbatim>\<open><span\<close> or \<^verbatim>\<open></span\<close> is returned as it
  is.
\<close>

theorem sanitized_body_has_only_span_tags:
  "(strip_tags s = pre @ CHR ''<'' # t @ CHR ''>'' # post \<and> t \<noteq> [] \<and> CHR ''>'' \<notin> set t
      \<longrightarrow> prefix ''span'' t \<or> prefix ''/span'' t)
   \<and> (CHR ''<'' \<notin> set pre \<and> t \<noteq> [] \<and> CHR ''>'' \<notin> set t
        \<and> \<not> prefix ''span'' t \<and> \<not> prefix ''/span'' t
      \<longrightarrow> strip_tags (pre @ CHR ''<'' # t @ CHR ''>'' # post) = pre @ strip_tags post)
   \<and> (only_span_tags body \<longrightarrow> strip_tags body = body)"
  using no_stray_tag [of pre t post] no_stray_strip_tags [of s] only_span_tags_unchanged [of body]
    strip_tags_removes [of pre t post]
  by auto

text \<open>
  C6 amended, at three bodies: a bold tag before a span, a script tag, and a body with a
  span only.
\<close>

theorem sanitized_body_has_only_span_tags_witness:
  \<open>strip_tags ''<b>x<span class="bold">y</span>''
      = ''x'' @ CHR ''<'' # ''span class="bold"'' @ CHR ''>'' # ''y</span>''
   \<and> prefix ''span'' ''span class="bold"''
   \<and> strip_tags (''a '' @ CHR ''<'' # ''script'' @ CHR ''>'' # ''b'') = ''a '' @ strip_tags ''b''
   \<and> only_span_tags ''a<span class="italic">b</span>''
   \<and> strip_tags ''a<span class="italic">b</span>'' = ''a<span class="italic">b</span>''\<close>
proof -
  have h1: \<open>strip_tags ''<b>x<span class="bold">y</span>''
      = ''x'' @ CHR ''<'' # ''span class="bold"'' @ CHR ''>'' # ''y</span>''
      \<and> ''span class="bold"'' \<noteq> [] \<and> CHR ''>'' \<notin> set ''span class="bold"''\<close>
    by code_simp
  have h2: "CHR ''<'' \<notin> set ''a '' \<and> ''script'' \<noteq> [] \<and> CHR ''>'' \<notin> set ''script''
      \<and> \<not> prefix ''span'' ''script'' \<and> \<not> prefix ''/span'' ''script''"
    by code_simp
  have h3: \<open>only_span_tags ''a<span class="italic">b</span>''\<close>
    by code_simp
  note t1 = sanitized_body_has_only_span_tags [of \<open>''<b>x<span class="bold">y</span>''\<close> "''x''" \<open>''span class="bold"''\<close>
      "''y</span>''" \<open>''a<span class="italic">b</span>''\<close>]
  note t2 = sanitized_body_has_only_span_tags [of "[]" "''a ''" "''script''" "''b''" "[]"]
  from t1 h1 have a: \<open>prefix ''span'' ''span class="bold"''\<close>
    by (simp add: prefix_def)
  from t2 h2 have b: "strip_tags (''a '' @ CHR ''<'' # ''script'' @ CHR ''>'' # ''b'')
      = ''a '' @ strip_tags ''b''"
    by blast
  from t1 h3 have c: \<open>strip_tags ''a<span class="italic">b</span>'' = ''a<span class="italic">b</span>''\<close>
    by blast
  from h1 a b h3 c show ?thesis by blast
qed

text \<open>
  C6 as stated fails. The tag \<^verbatim>\<open><spank>\<close> is not a style span and is not stripped; and
  the span tag that follows "1 < 2 " is stripped together with the \<^verbatim>\<open><\<close> before it,
  so a legitimate span tag does not always survive.
\<close>

theorem span_prefixed_tag_survives:
  \<open>strip_tags ''<spank>x</spank>'' = ''<spank>x</spank>''
   \<and> strip_tags ''1 < 2 <span class="bold">z</span>'' = ''1 z</span>''\<close>
  by code_simp

section \<open>C7: the normalization of the body\<close>


lemma rstrip_decomp: "s = rstrip s @ rev (takeWhile is_space (rev s))"
  unfolding rstrip_def
  by (metis rev_append rev_rev_ident takeWhile_dropWhile_id)

lemma strip_decomp: "\<exists>a b. s = a @ strip s @ b"
proof -
  have 1: "s = takeWhile is_space s @ lstrip s" by (simp add: lstrip_def)
  have 2: "lstrip s = strip s @ rev (takeWhile is_space (rev (lstrip s)))"
    unfolding strip_def by (rule rstrip_decomp)
  from 1 2 have "s = takeWhile is_space s @ strip s @ rev (takeWhile is_space (rev (lstrip s)))"
    by simp
  then show ?thesis by blast
qed

lemma strip_hd: "strip s \<noteq> [] \<Longrightarrow> \<not> is_space (hd (strip s))"
proof -
  assume ne: "strip s \<noteq> []"
  have d: "lstrip s = strip s @ rev (takeWhile is_space (rev (lstrip s)))"
    unfolding strip_def by (rule rstrip_decomp)
  with ne have "lstrip s \<noteq> []" by auto
  then have "\<not> is_space (hd (lstrip s))"
    unfolding lstrip_def by (rule hd_dropWhile)
  moreover from d ne have "hd (lstrip s) = hd (strip s)"
    by (metis hd_append2)
  ultimately show ?thesis by simp
qed

lemma strip_fixed:
  assumes "s = [] \<or> (\<not> is_space (hd s) \<and> \<not> is_space (last s))"
  shows "strip s = s"
proof (cases "s = []")
  case True
  then show ?thesis by (simp add: strip_def rstrip_def lstrip_def)
next
  case False
  with assms have h: "\<not> is_space (hd s)" and l: "\<not> is_space (last s)" by auto
  from False h have 1: "lstrip s = s" by (cases s) (auto simp: lstrip_def)
  from False l have "dropWhile is_space (rev s) = rev s"
    by (cases "rev s") (auto simp: last_rev [symmetric] hd_rev)
  then have 2: "rstrip s = s" by (simp add: rstrip_def)
  from 1 2 show ?thesis by (simp add: strip_def)
qed

lemma strip_strip: "strip (strip s) = strip s"
  using strip_hd [of s] strip_last [of s] by (intro strip_fixed) auto

lemma collapse_ws_Nil_iff: "(collapse_ws s = []) = (s = [])"
  by (cases s) auto

lemma collapse_ws_hd: "s \<noteq> [] \<Longrightarrow> \<not> is_space (hd s) \<Longrightarrow> hd (collapse_ws s) = hd s"
  by (cases s) auto

lemma collapse_ws_spaces: "c \<in> set (collapse_ws s) \<Longrightarrow> is_space c \<Longrightarrow> c = CHR '' ''"
  by (induction s rule: collapse_ws.induct) (auto split: if_splits)

lemma collapse_ws_successively:
  "successively (\<lambda>a b. \<not> (is_space a \<and> is_space b)) (collapse_ws s)"
proof (induction s rule: collapse_ws.induct)
  case 1
  then show ?case by simp
next
  case (2 c cs)
  show ?case
  proof (cases "is_space c")
    case True
    let ?r = "dropWhile is_space cs"
    have "?r \<noteq> [] \<Longrightarrow> \<not> is_space (hd (collapse_ws ?r))"
      using hd_dropWhile [of is_space cs] by (simp add: collapse_ws_hd)
    with True "2.IH"(1) show ?thesis
      by (auto simp: successively_Cons collapse_ws_Nil_iff)
  next
    case False
    with "2.IH"(2) show ?thesis by (auto simp: successively_Cons)
  qed
qed

lemma collapse_ws_fixed:
  "(\<forall>c\<in>set s. is_space c \<longrightarrow> c = CHR '' '') \<Longrightarrow>
   successively (\<lambda>a b. \<not> (is_space a \<and> is_space b)) s \<Longrightarrow> collapse_ws s = s"
proof (induction s rule: collapse_ws.induct)
  case 1
  then show ?case by simp
next
  case (2 c cs)
  show ?case
  proof (cases "is_space c")
    case True
    with "2.prems"(2) have d: "dropWhile is_space cs = cs"
      by (cases cs) (auto simp: successively_Cons)
    from "2.prems" have "collapse_ws cs = cs"
      using "2.IH"(1) [OF True] d by (auto simp: successively_Cons)
    with True d "2.prems"(1) show ?thesis by simp
  next
    case False
    from "2.prems" have "collapse_ws cs = cs"
      using "2.IH"(2) [OF False] by (auto simp: successively_Cons)
    with False show ?thesis by simp
  qed
qed

lemma cr_Nil_iff: "(collapse_repeated p s = []) = (s = [])"
  by (cases s) auto

lemma cr_hd: "s \<noteq> [] \<Longrightarrow> hd (collapse_repeated p s) = hd s"
  by (cases s) auto

lemma cr_set: "set (collapse_repeated p s) \<subseteq> set s"
  by (induction p s rule: collapse_repeated.induct) (auto dest: set_dropWhileD split: if_splits)

lemma cr_last: "s \<noteq> [] \<Longrightarrow> last (collapse_repeated p s) = last s"
proof (induction p s rule: collapse_repeated.induct)
  case (1 p)
  then show ?case by simp
next
  case (2 p c cs)
  show ?case
  proof (cases "c = p \<and> prefix [p] cs")
    case True
    define r where "r = dropWhile (\<lambda>x. x = p) cs"
    have e: "collapse_repeated p (c # cs) = p # collapse_repeated p r"
      using True by (simp add: r_def)
    have d: "cs = takeWhile (\<lambda>x. x = p) cs @ r" by (simp add: r_def)
    show ?thesis
    proof (cases "r = []")
      case True
      with d have "cs = takeWhile (\<lambda>x. x = p) cs" by simp
      then have "\<forall>x\<in>set cs. x = p" by (metis set_takeWhileD)
      then have "last (c # cs) = p" using \<open>c = p \<and> prefix [p] cs\<close> by (cases cs) auto
      with True e show ?thesis by simp
    next
      case False
      with d have "last cs = last r" by (metis last_appendR)
      moreover from False d have "cs \<noteq> []" by auto
      moreover have "last (collapse_repeated p r) = last r"
        using "2.IH"(1) [OF True] False by (simp add: r_def)
      ultimately show ?thesis using False e by (simp add: cr_Nil_iff)
    qed
  next
    case False
    with "2.IH"(2) show ?thesis by (auto simp: cr_Nil_iff)
  qed
qed

lemma successively_dropWhile_eq:
  "successively R (p # cs) \<Longrightarrow>
   successively R (dropWhile (\<lambda>x. x = p) cs)
   \<and> (dropWhile (\<lambda>x. x = p) cs \<noteq> [] \<longrightarrow> R p (hd (dropWhile (\<lambda>x. x = p) cs)))"
  by (induction cs) (auto simp: successively_Cons)

lemma cr_successively: "successively R s \<Longrightarrow> successively R (collapse_repeated p s)"
proof (induction p s rule: collapse_repeated.induct)
  case (1 p)
  then show ?case by simp
next
  case (2 p c cs)
  show ?case
  proof (cases "c = p \<and> prefix [p] cs")
    case True
    define r where "r = dropWhile (\<lambda>x. x = p) cs"
    have e: "collapse_repeated p (c # cs) = p # collapse_repeated p r"
      using True by (simp add: r_def)
    from "2.prems" True have d: "successively R r" "r \<noteq> [] \<longrightarrow> R p (hd r)"
      using successively_dropWhile_eq [of R p cs] by (auto simp: r_def)
    have "successively R (collapse_repeated p r)"
      using "2.IH"(1) [OF True] d(1) by (simp add: r_def)
    with d(2) show ?thesis
      unfolding e by (cases "r = []") (auto simp: successively_Cons cr_Nil_iff cr_hd)
  next
    case False
    from "2.prems" have "successively R cs" by (auto simp: successively_Cons)
    from "2.IH"(2) [OF False this] "2.prems" False show ?thesis
      by (cases "cs = []") (auto simp: successively_Cons cr_Nil_iff cr_hd)
  qed
qed

lemma cr_no_repeat: "successively (\<lambda>a b. \<not> (a = p \<and> b = p)) (collapse_repeated p s)"
proof (induction p s rule: collapse_repeated.induct)
  case (1 p)
  then show ?case by simp
next
  case (2 p c cs)
  show ?case
  proof (cases "c = p \<and> prefix [p] cs")
    case True
    define r where "r = dropWhile (\<lambda>x. x = p) cs"
    have e: "collapse_repeated p (c # cs) = p # collapse_repeated p r"
      using True by (simp add: r_def)
    have h: "r \<noteq> [] \<longrightarrow> hd r \<noteq> p"
      unfolding r_def using hd_dropWhile [of "\<lambda>x. x = p" cs] by blast
    have "successively (\<lambda>a b. \<not> (a = p \<and> b = p)) (collapse_repeated p r)"
      using "2.IH"(1) [OF True] by (simp add: r_def)
    with h show ?thesis
      unfolding e by (cases "r = []") (auto simp: successively_Cons cr_Nil_iff cr_hd)
  next
    case False
    then have "c = p \<Longrightarrow> cs \<noteq> [] \<Longrightarrow> hd cs \<noteq> p" by (cases cs) auto
    with "2.IH"(2) [OF False] False show ?thesis
      by (cases "cs = []") (auto simp: successively_Cons cr_Nil_iff cr_hd)
  qed
qed

lemma cr_fixed: "successively (\<lambda>a b. \<not> (a = p \<and> b = p)) s \<Longrightarrow> collapse_repeated p s = s"
proof (induction p s rule: collapse_repeated.induct)
  case (1 p)
  then show ?case by simp
next
  case (2 p c cs)
  from "2.prems" have nt: "\<not> (c = p \<and> prefix [p] cs)" by (cases cs) auto
  from "2.prems" have "successively (\<lambda>a b. \<not> (a = p \<and> b = p)) cs"
    by (auto simp: successively_Cons)
  from "2.IH"(2) [OF nt this] nt show ?case by auto
qed

lemma ws_normal_fixed: "ws_normal s \<Longrightarrow> strip (collapse_ws s) = s"
  by (simp add: ws_normal_def collapse_ws_fixed strip_fixed)

lemma ws_normal_strip_collapse: "ws_normal (strip (collapse_ws s))"
proof -
  obtain a b where d: "collapse_ws s = a @ strip (collapse_ws s) @ b"
    using strip_decomp by blast
  have 1: "\<forall>c\<in>set (strip (collapse_ws s)). is_space c \<longrightarrow> c = CHR '' ''"
  proof (intro ballI impI)
    fix c assume "c \<in> set (strip (collapse_ws s))" and sp: "is_space c"
    then have "c \<in> set (a @ strip (collapse_ws s) @ b)" by simp
    with d have "c \<in> set (collapse_ws s)" by simp
    with sp show "c = CHR '' ''" using collapse_ws_spaces by blast
  qed
  have "successively (\<lambda>a b. \<not> (is_space a \<and> is_space b)) (a @ strip (collapse_ws s) @ b)"
    using collapse_ws_successively [of s] d by simp
  then have 2: "successively (\<lambda>a b. \<not> (is_space a \<and> is_space b)) (strip (collapse_ws s))"
    by (simp add: successively_append_iff)
  from 1 2 strip_hd [of "collapse_ws s"] strip_last [of "collapse_ws s"]
  show ?thesis by (auto simp: ws_normal_def)
qed

lemma ws_normal_cr: "ws_normal s \<Longrightarrow> ws_normal (collapse_repeated p s)"
  using cr_set [of p s]
  by (auto simp: ws_normal_def cr_successively cr_Nil_iff cr_hd cr_last)

text \<open>
  C7. The last three steps of \<^verbatim>\<open>process_paragraph\<close> (whitespace collapsed and trimmed,
  then colons collapsed, then commas collapsed) give the same text when applied twice as
  when applied once, for every text.
\<close>

theorem normalize_body_idempotent: "normalize_body (normalize_body s) = normalize_body s"
proof -
  let ?A = "strip (collapse_ws s)"
  let ?B = "collapse_repeated (CHR '':'') ?A"
  let ?C = "collapse_repeated (CHR '','') ?B"
  have C: "normalize_body s = ?C" by (simp add: normalize_body_def)
  have "ws_normal ?C" by (intro ws_normal_cr ws_normal_strip_collapse)
  then have 1: "strip (collapse_ws ?C) = ?C" by (rule ws_normal_fixed)
  have "successively (\<lambda>a b. \<not> (a = CHR '':'' \<and> b = CHR '':'')) ?C"
    by (intro cr_successively cr_no_repeat)
  then have 2: "collapse_repeated (CHR '':'') ?C = ?C" by (rule cr_fixed)
  have 3: "collapse_repeated (CHR '','') ?C = ?C"
    by (intro cr_fixed cr_no_repeat)
  have "normalize_body ?C = ?C"
    unfolding normalize_body_def 1 2 3 ..
  with C show ?thesis by simp
qed

section \<open>C3: the characters that reach the body\<close>














end
